theory Spec2Isabelle
  imports Main "HOL-Library.Sublist"
begin

section \<open>Strings\<close>

text \<open>
  Python \<open>str\<close> values are modelled as \<open>string\<close>, read as the UTF-8 encoding of the
  text. Every token the program compares against (\<open>done\<close>, the four image extensions,
  \<open>@everyone\<close>, \<open>@here\<close>) is ASCII, and no non-ASCII code point lower-cases to, or
  matches under \<open>re.IGNORECASE\<close>, any of the letters of these tokens; bytes of a
  multi-byte UTF-8 sequence are all above 127. So \<open>str.lower\<close> and case-insensitive
  matching are modelled by the ASCII letter table, which leaves every other byte alone.
\<close>

definition ascii_uppercase :: string where
  "ascii_uppercase = ''ABCDEFGHIJKLMNOPQRSTUVWXYZ''"

definition ascii_lowercase :: string where
  "ascii_lowercase = ''abcdefghijklmnopqrstuvwxyz''"

definition lower_char :: "char \<Rightarrow> char" where
  "lower_char c =
     (case map_of (zip ascii_uppercase ascii_lowercase) c of Some d \<Rightarrow> d | None \<Rightarrow> c)"

text \<open>\<open>s.lower()\<close>\<close>

definition lower :: "string \<Rightarrow> string" where
  "lower s = map lower_char s"

text \<open>\<open>s.endswith(ext)\<close>\<close>

definition endswith :: "string \<Rightarrow> string \<Rightarrow> bool" where
  "endswith s ext = (length ext \<le> length s \<and> drop (length s - length ext) s = ext)"

text \<open>\<open>str(n)\<close> for a non-negative integer: its decimal digits.\<close>

definition digit_char :: "nat \<Rightarrow> char" where
  "digit_char d = ''0123456789'' ! d"

fun str_nat :: "nat \<Rightarrow> string" where
  "str_nat n = (if n < 10 then [digit_char n] else str_nat (n div 10) @ [digit_char (n mod 10)])"

declare str_nat.simps [simp del]

section \<open>Attachments and the format filter\<close>

record attachment =
  filename :: string
  att_size :: nat

text \<open>The literal list of line 101.\<close>

definition image_extensions :: "string list" where
  "image_extensions = [''png'', ''jpg'', ''jpeg'', ''gif'']"

text \<open>
  The condition of the comprehension of lines 98-102:
  \<open>any(attachment.filename.lower().endswith(ext) for ext in ['png', 'jpg', 'jpeg', 'gif'])\<close>.
\<close>

definition is_acceptable :: "attachment \<Rightarrow> bool" where
  "is_acceptable a = list_ex (\<lambda>ext. endswith (lower (filename a)) ext) image_extensions"

text \<open>The comprehension itself, applied to \<open>msg.attachments\<close>.\<close>

definition valid_images :: "attachment list \<Rightarrow> attachment list" where
  "valid_images atts = filter is_acceptable atts"

section \<open>The sanitizer\<close>

text \<open>
  \<open>re.sub(pat, repl, s, flags=re.IGNORECASE)\<close> for a non-empty pattern without
  metacharacters and a replacement without escapes, as both calls of \<open>sanitize_message\<close>
  are: the text is scanned from the left; where the pattern matches, ignoring case, the
  replacement is emitted and the scan goes on behind the match; elsewhere the character is
  copied.
\<close>

definition match_at :: "string \<Rightarrow> string \<Rightarrow> bool" where
  "match_at pat s = (length pat \<le> length s \<and> lower (take (length pat) s) = lower pat)"

fun re_sub :: "string \<Rightarrow> string \<Rightarrow> string \<Rightarrow> string" where
  "re_sub pat repl [] = []"
| "re_sub pat repl (c # s) =
     (if match_at pat (c # s) then repl @ re_sub pat repl (drop (length pat - 1) s)
      else c # re_sub pat repl s)"

text \<open>Lines 17-23.\<close>

definition sanitize_message :: "string \<Rightarrow> string" where
  "sanitize_message message =
     re_sub ''@here'' ''[at here]'' (re_sub ''@everyone'' ''[at everyone]'' message)"

section \<open>The report command\<close>

subsection \<open>Exceptions, messages and the environment\<close>

text \<open>
  The exception classes the handlers of \<open>report\<close> tell apart: \<open>discord.Forbidden\<close>,
  \<open>asyncio.TimeoutError\<close> and every other \<open>Exception\<close>; each carries the text \<open>str(e)\<close>.
\<close>

datatype exn = Forbidden string | TimeoutError string | OtherException string

fun str_exn :: "exn \<Rightarrow> string" where
  "str_exn (Forbidden s) = s"
| "str_exn (TimeoutError s) = s"
| "str_exn (OtherException s) = s"

text \<open>A \<open>discord.Member\<close>, as far as \<open>report\<close> reads it: \<open>mention\<close> and \<open>id\<close>.\<close>

record member =
  mention :: string
  member_id :: nat

text \<open>A \<open>discord.Message\<close>; \<open>author\<close> and \<open>channel\<close> are compared by identifier.\<close>

record message =
  author :: nat
  channel :: nat
  content :: string
  attachments :: "attachment list"

text \<open>
  The \<open>discord.Embed\<close> of lines 124-143. Every field is added with \<open>inline=False\<close>, so a
  field is its name and its value; the colour is the constant \<open>discord.Color.yellow()\<close>.
\<close>

record embed =
  title :: string
  description :: string
  colour :: string
  timestamp :: nat
  embed_fields :: "(string \<times> string) list"
  footer :: string

text \<open>
  What \<open>report\<close> does to the outside world, in the order it does it: each call of the
  library is one action of the trace. \<open>Send c p\<close> is \<open>channel.send\<close> on the channel with
  identifier \<open>c\<close>: plain text, \<open>embed=\<close> or \<open>files=\<close>. A \<open>discord.File\<close> made by
  \<open>to_file\<close> is identified with the attachment it was made from.
\<close>

datatype payload = Content string | Embed embed | Files "attachment list"

datatype action =
    Defer
  | Respond string
  | CreateDM
  | WaitFor
  | Send nat payload
  | ToFile attachment
  | LogError string

text \<open>
  The context of one invocation and the behaviour of the world during it:
  \<^item> \<open>ctx_author\<close> is \<open>ctx.author\<close>;
  \<^item> \<open>mod_channel\<close> is the result of \<open>discord.utils.get(ctx.guild.channels, id=settings.channels.REPORTS)\<close>;
  \<^item> \<open>dm_channel\<close> is the channel \<open>create_dm\<close> returns;
  \<^item> \<open>utcnow\<close> is \<open>datetime.utcnow()\<close>;
  \<^item> \<open>inbox i\<close> are the messages the bot is dispatched, in order, while the \<open>i\<close>-th
    \<open>wait_for\<close> of the loop is pending and before its 60 seconds are over;
  \<^item> \<open>raises k\<close> tells whether the call that is action number \<open>k\<close> of the trace raises,
    and what. Any sequence of outcomes of the library calls is some such function.
\<close>

record env =
  ctx_author :: member
  mod_channel :: "nat option"
  dm_channel :: nat
  utcnow :: nat
  inbox :: "nat \<Rightarrow> message list"
  raises :: "nat \<Rightarrow> exn option"

text \<open>A computation returns a value or raises, and leaves the trace of what it did.\<close>

type_synonym 'a result = "(exn + 'a) \<times> action list"

definition call :: "env \<Rightarrow> action \<Rightarrow> action list \<Rightarrow> unit result" where
  "call env a tr =
     (case raises env (length tr) of
        None \<Rightarrow> (Inr (), tr @ [a])
      | Some e \<Rightarrow> (Inl e, tr @ [a]))"

text \<open>The closure \<open>check\<close> of lines 79-87.\<close>

definition check :: "env \<Rightarrow> message \<Rightarrow> bool" where
  "check env msg =
     (author msg = member_id (ctx_author env)
      \<and> channel msg = dm_channel env
      \<and> (length (attachments msg) > 0 \<or> lower (content msg) = ''done''))"

text \<open>
  \<open>self.bot.wait_for("message", timeout=60.0, check=check)\<close>: the first message of the
  window that passes \<open>check\<close>, or \<open>asyncio.TimeoutError\<close> when there is none.
\<close>

definition wait_for :: "env \<Rightarrow> nat \<Rightarrow> action list \<Rightarrow> message result" where
  "wait_for env i tr =
     (case find (check env) (inbox env i) of
        None \<Rightarrow> (Inl (TimeoutError []), tr @ [WaitFor])
      | Some msg \<Rightarrow> (Inr msg, tr @ [WaitFor]))"

subsection \<open>Texts\<close>

text \<open>\<open>'s' if n != 1 else ''\<close>\<close>

definition plural :: "nat \<Rightarrow> string" where
  "plural n = (if n \<noteq> 1 then ''s'' else [])"

text \<open>The non-ASCII characters of the literals, in UTF-8.\<close>

definition cross_mark :: string where
  "cross_mark = [CHR 0xE2, CHR 0x9D, CHR 0x8C]"

definition check_mark :: string where
  "check_mark = [CHR 0xE2, CHR 0x9C, CHR 0x85]"

definition paperclip :: string where
  "paperclip = [CHR 0xF0, CHR 0x9F, CHR 0x93, CHR 0x8E]"

definition bullet :: string where
  "bullet = [CHR 0xE2, CHR 0x80, CHR 0xA2]"

text \<open>The literals of lines 55, 62, 70-74, 106, 112-113, 119, 154-155, 160, 165 and 167.\<close>

definition no_channel_text :: string where
  "no_channel_text = cross_mark
     @ '' Unable to process report: Moderator channel not found. Please notify an admin.''"

definition dm_notice_text :: string where
  "dm_notice_text = [CHR 0xF0, CHR 0x9F, CHR 0x93, CHR 0xA8] @ '' I'' @ [CHR 0x27]
     @ ''ll send you a DM to collect any images for your report.''"

definition prompt_text :: string where
  "prompt_text = paperclip @ '' **Please send the images for your report**'' @ [CHR 0x0A, CHR 0x0A]
     @ bullet @ '' Send your images as attachments'' @ [CHR 0x0A]
     @ bullet @ '' Supported formats: PNG, JPG, JPEG, GIF'' @ [CHR 0x0A]
     @ bullet @ '' Type '' @ [CHR 0x60] @ ''done'' @ [CHR 0x60] @ '' when you'' @ [CHR 0x27]
     @ ''ve finished'' @ [CHR 0x0A]
     @ bullet @ '' Or wait 60 seconds to submit without more images''"

definition rejection_text :: string where
  "rejection_text = [CHR 0xE2, CHR 0x9A, CHR 0xA0, CHR 0xEF, CHR 0xB8, CHR 0x8F]
     @ '' Invalid file format! Please only send PNG, JPG, JPEG, or GIF images.''"

definition received_text :: "nat \<Rightarrow> string" where
  "received_text n = check_mark @ '' Received '' @ str_nat n @ '' image'' @ plural n
     @ ''. Send more or type '' @ [CHR 0x60] @ ''done'' @ [CHR 0x60] @ '' to finish.''"

definition timeout_text :: string where
  "timeout_text = [CHR 0xE2, CHR 0x8F, CHR 0xB0] @ '' Time'' @ [CHR 0x27] @ ''s up! I''
     @ [CHR 0x27] @ ''ll proceed with the images you'' @ [CHR 0x27] @ ''ve already sent.''"

definition success_text :: "attachment list \<Rightarrow> string" where
  "success_text images = check_mark @ '' Your report has been sent to the moderators!'' @ [CHR 0x0A]
     @ (if images \<noteq> []
        then paperclip @ '' Included '' @ str_nat (length images) @ '' image'' @ plural (length images)
        else [])"

definition dm_forbidden_text :: string where
  "dm_forbidden_text = cross_mark @ '' I couldn'' @ [CHR 0x27]
     @ ''t send you a DM. Please check your privacy settings and try again.''"

definition generic_error_text :: string where
  "generic_error_text = cross_mark
     @ '' An error occurred while processing your report. Please try again later.''"

definition log_text :: "env \<Rightarrow> exn \<Rightarrow> string" where
  "log_text env e = ''Error processing report from '' @ str_nat (member_id (ctx_author env))
     @ '': '' @ str_exn e"

subsection \<open>The collection loop\<close>

text \<open>How one pass through the body of \<open>while True\<close> ends when it does not raise.\<close>

datatype flow = Continue | Break

text \<open>
  The \<open>try\<close> block of lines 90-114. \<open>images\<close> is mutated in place, so the list is
  returned also when the block raises: the handler of line 116 reads it.
\<close>

definition loop_try ::
  "env \<Rightarrow> nat \<Rightarrow> attachment list \<Rightarrow> action list \<Rightarrow> (exn + flow) \<times> attachment list \<times> action list" where
  "loop_try env i images tr =
     (case wait_for env i tr of
        (Inl e, tr1) \<Rightarrow> (Inl e, images, tr1)
      | (Inr msg, tr1) \<Rightarrow>
          if lower (content msg) = ''done'' then (Inr Break, images, tr1)
          else
            let valid = valid_images (attachments msg) in
            if valid = [] \<and> attachments msg \<noteq> [] then
              (case call env (Send (dm_channel env) (Content rejection_text)) tr1 of
                 (Inl e, tr2) \<Rightarrow> (Inl e, images, tr2)
               | (Inr u, tr2) \<Rightarrow> (Inr Continue, images, tr2))
            else
              (case call env (Send (dm_channel env) (Content (received_text (length valid)))) tr1 of
                 (Inl e, tr2) \<Rightarrow> (Inl e, images @ valid, tr2)
               | (Inr u, tr2) \<Rightarrow> (Inr Continue, images @ valid, tr2)))"

text \<open>
  The block with its handler \<open>except asyncio.TimeoutError\<close> (lines 116-121), which
  catches the exception wherever in the block it was raised. An exception raised inside
  the handler, and any other exception of the block, leaves the loop.
\<close>

definition loop_body ::
  "env \<Rightarrow> nat \<Rightarrow> attachment list \<Rightarrow> action list \<Rightarrow> (exn + flow) \<times> attachment list \<times> action list" where
  "loop_body env i images tr =
     (case loop_try env i images tr of
        (Inl (TimeoutError s), images', tr1) \<Rightarrow>
          if images' \<noteq> [] then
            (case call env (Send (dm_channel env) (Content timeout_text)) tr1 of
               (Inl e, tr2) \<Rightarrow> (Inl e, images', tr2)
             | (Inr u, tr2) \<Rightarrow> (Inr Break, images', tr2))
          else (Inr Break, images', tr1)
      | other \<Rightarrow> other)"

text \<open>
  The loop of lines 89-121, entered for the \<open>i\<close>-th time. It need not end: a reporter who
  sends an attachment in every window keeps it running, and then \<open>collect\<close> is \<open>None\<close>.
\<close>

partial_function (option) collect ::
  "env \<Rightarrow> nat \<Rightarrow> attachment list \<Rightarrow> action list \<Rightarrow> ((exn + attachment list) \<times> action list) option" where
  "collect env i images tr =
     (case loop_body env i images tr of
        (r, images', tr') \<Rightarrow>
          (case r of
             Inl e \<Rightarrow> Some (Inl e, tr')
           | Inr Break \<Rightarrow> Some (Inr images', tr')
           | Inr Continue \<Rightarrow> collect env (Suc i) images' tr'))"


subsection \<open>Delivery\<close>

text \<open>Lines 124-143.\<close>

definition make_embed :: "env \<Rightarrow> string \<Rightarrow> member option \<Rightarrow> attachment list \<Rightarrow> embed" where
  "make_embed env sanitized_message user images =
     \<lparr>title = [CHR 0xF0, CHR 0x9F, CHR 0x93, CHR 0xA2] @ '' New Report'',
      description = ''From '' @ mention (ctx_author env),
      colour = ''yellow'',
      timestamp = utcnow env,
      embed_fields =
        [([CHR 0xF0, CHR 0x9F, CHR 0x93, CHR 0x9D] @ '' Content'', sanitized_message)]
        @ (case user of
             Some u \<Rightarrow> [(''User reported'', mention u @ '' ('' @ str_nat (member_id u) @ '')'')]
           | None \<Rightarrow> [])
        @ (if images \<noteq> []
           then [(paperclip @ '' Attachments'',
                  str_nat (length images) @ '' image'' @ plural (length images) @ '' attached'')]
           else []),
      footer = ''Reporter ID: '' @ str_nat (member_id (ctx_author env))\<rparr>"

text \<open>\<open>[await img.to_file() for img in images]\<close> of line 150.\<close>

fun to_files :: "env \<Rightarrow> attachment list \<Rightarrow> action list \<Rightarrow> attachment list result" where
  "to_files env [] tr = (Inr [], tr)"
| "to_files env (img # imgs) tr =
     (case call env (ToFile img) tr of
        (Inl e, tr1) \<Rightarrow> (Inl e, tr1)
      | (Inr u, tr1) \<Rightarrow>
          (case to_files env imgs tr1 of
             (Inl e, tr2) \<Rightarrow> (Inl e, tr2)
           | (Inr files, tr2) \<Rightarrow> (Inr (img # files), tr2)))"

text \<open>Lines 145-156: the embed, then the files if there are images, then the confirmation.\<close>

definition deliver ::
  "env \<Rightarrow> nat \<Rightarrow> string \<Rightarrow> member option \<Rightarrow> attachment list \<Rightarrow> action list \<Rightarrow> unit result" where
  "deliver env mc sanitized_message user images tr =
     (case call env (Send mc (Embed (make_embed env sanitized_message user images))) tr of
        (Inl e, tr1) \<Rightarrow> (Inl e, tr1)
      | (Inr u, tr1) \<Rightarrow>
          (case (if images \<noteq> [] then
                   (case to_files env images tr1 of
                      (Inl e, tr2) \<Rightarrow> (Inl e, tr2)
                    | (Inr files, tr2) \<Rightarrow> call env (Send mc (Files files)) tr2)
                 else (Inr (), tr1)) of
             (Inl e, tr3) \<Rightarrow> (Inl e, tr3)
           | (Inr u, tr3) \<Rightarrow> call env (Send (dm_channel env) (Content (success_text images))) tr3))"

subsection \<open>The command\<close>

text \<open>Lines 68-121: the private channel is opened, the prompt sent and the loop run.\<close>

definition session :: "env \<Rightarrow> action list \<Rightarrow> ((exn + attachment list) \<times> action list) option" where
  "session env tr =
     (case call env CreateDM tr of
        (Inl e, tr1) \<Rightarrow> Some (Inl e, tr1)
      | (Inr u, tr1) \<Rightarrow>
          (case call env (Send (dm_channel env) (Content prompt_text)) tr1 of
             (Inl e, tr2) \<Rightarrow> Some (Inl e, tr2)
           | (Inr u, tr2) \<Rightarrow> collect env 0 [] tr2))"

text \<open>The \<open>try\<close> block of lines 67-156.\<close>

definition try_body ::
  "env \<Rightarrow> nat \<Rightarrow> string \<Rightarrow> member option \<Rightarrow> action list \<Rightarrow> unit result option" where
  "try_body env mc sanitized_message user tr =
     (case session env tr of
        None \<Rightarrow> None
      | Some (Inl e, tr1) \<Rightarrow> Some (Inl e, tr1)
      | Some (Inr images, tr1) \<Rightarrow> Some (deliver env mc sanitized_message user images tr1))"

text \<open>
  The handlers of lines 158-169. \<open>logger.error\<close> does not raise; \<open>ctx.respond\<close> may, and
  then the exception leaves \<open>report\<close>.
\<close>

definition handle_exn :: "env \<Rightarrow> unit result \<Rightarrow> unit result" where
  "handle_exn env r =
     (case r of
        (Inr u, tr) \<Rightarrow> (Inr (), tr)
      | (Inl (Forbidden s), tr) \<Rightarrow> call env (Respond dm_forbidden_text) tr
      | (Inl e, tr) \<Rightarrow> call env (Respond generic_error_text) (tr @ [LogError (log_text env e)]))"

text \<open>
  \<open>ReportCog.report\<close>, lines 37-169. The result is \<open>None\<close> when the loop does not end;
  otherwise the trace of the run with \<open>Inr ()\<close> when the command returns and \<open>Inl e\<close> when
  \<open>e\<close> leaves it.
\<close>

definition report :: "env \<Rightarrow> string \<Rightarrow> member option \<Rightarrow> unit result option" where
  "report env message user =
     (let sanitized_message = sanitize_message message in
      case call env Defer [] of
        (Inl e, tr0) \<Rightarrow> Some (Inl e, tr0)
      | (Inr u, tr0) \<Rightarrow>
          (case mod_channel env of
             None \<Rightarrow> Some (call env (Respond no_channel_text) tr0)
           | Some mc \<Rightarrow>
               (case call env (Respond dm_notice_text) tr0 of
                  (Inl e, tr1) \<Rightarrow> Some (Inl e, tr1)
                | (Inr u, tr1) \<Rightarrow>
                    map_option (handle_exn env) (try_body env mc sanitized_message user tr1))))"

subsection \<open>Notions the claims use\<close>

text \<open>The sends of the two delivery phases: an embed, a bundle of files.\<close>

fun is_delivery :: "action \<Rightarrow> bool" where
  "is_delivery (Send c (Embed e)) = True"
| "is_delivery (Send c (Files fs)) = True"
| "is_delivery a = False"

text \<open>The \<open>n\<close> calls that are actions \<open>k\<close>, \<open>k + 1\<close>, ... of the trace all return.\<close>

fun all_return :: "env \<Rightarrow> nat \<Rightarrow> nat \<Rightarrow> bool" where
  "all_return env k 0 = True"
| "all_return env k (Suc n) = (raises env k = None \<and> all_return env (Suc k) n)"

text \<open>
  The sends of plain text: the notices and the confirmation the reporter gets in the
  private channel.
\<close>

fun is_text_send :: "action \<Rightarrow> bool" where
  "is_text_send (Send c (Content t)) = True"
| "is_text_send a = False"

text \<open>
  The number of library calls of the two delivery phases: the embed; then, when there are
  images, one conversion for each and the bundle.
\<close>

definition delivery_calls :: "attachment list \<Rightarrow> nat" where
  "delivery_calls images = (if images = [] then 1 else length images + 2)"

text \<open>
  What the second phase does when nothing raises.
\<close>

definition phase_two :: "nat \<Rightarrow> attachment list \<Rightarrow> action list" where
  "phase_two mc images = (if images = [] then [] else map ToFile images @ [Send mc (Files images)])"

subsection \<open>Example runs\<close>

text \<open>
  A reporter (identifier 12345, private channel 9, moderation channel 7) who sends an
  image and a text file, then a text file alone, then \<open>Done\<close> with an image attached, and
  is silent afterwards; no call raises.
\<close>

definition reporter :: member where
  "reporter = \<lparr>mention = ''<@12345>'', member_id = 12345\<rparr>"

definition shot :: attachment where
  "shot = \<lparr>filename = ''Shot.PNG'', att_size = 1024\<rparr>"

definition memo :: attachment where
  "memo = \<lparr>filename = ''notes.txt'', att_size = 10\<rparr>"

definition from_reporter :: "string \<Rightarrow> attachment list \<Rightarrow> message" where
  "from_reporter text atts = \<lparr>author = 12345, channel = 9, content = text, attachments = atts\<rparr>"

definition env_demo :: env where
  "env_demo =
     \<lparr>ctx_author = reporter, mod_channel = Some 7, dm_channel = 9, utcnow = 0,
      inbox = (\<lambda>i. if i = 0 then [from_reporter [] [shot, memo]]
                   else if i = 1 then [from_reporter ''look'' [memo]]
                   else if i = 2 then [from_reporter ''Done'' [shot]]
                   else []),
      raises = (\<lambda>k. None)\<rparr>"

text \<open>
  The same reporter typing \<open>done\<close> at once; and the same again with a moderation channel
  the bot may not write to: the first send to it, action 5 of the run, raises
  \<open>discord.Forbidden\<close>.
\<close>

definition env_done :: env where
  "env_done = env_demo\<lparr>inbox := (\<lambda>i. [from_reporter ''done'' []])\<rparr>"

definition env_forbidden :: env where
  "env_forbidden = env_done\<lparr>raises := (\<lambda>k. if k = 5 then Some (Forbidden ''403 Forbidden'') else None)\<rparr>"

text \<open>
  The reporter of the first run again, with a server error (any exception other than
  \<open>discord.Forbidden\<close> and \<open>asyncio.TimeoutError\<close>) at one call: in the first run the send
  of the embed, action 9, raises; in the second the acknowledgement of the first input,
  action 5, does.
\<close>

definition env_embed_fails :: env where
  "env_embed_fails =
     env_demo\<lparr>raises := (\<lambda>k. if k = 9 then Some (OtherException ''500 Internal Server Error'') else None)\<rparr>"

definition env_ack_fails :: env where
  "env_ack_fails =
     env_demo\<lparr>raises := (\<lambda>k. if k = 5 then Some (OtherException ''500 Internal Server Error'') else None)\<rparr>"

section \<open>Facts about strings\<close>

lemmas lower_table = lower_char_def ascii_uppercase_def ascii_lowercase_def

lemma lower_append: "lower (xs @ ys) = lower xs @ lower ys"
  by (simp add: lower_def)

lemma length_lower: "length (lower s) = length s"
  by (simp add: lower_def)

lemma drop_lower: "drop n (lower s) = lower (drop n s)"
  by (simp add: lower_def drop_map)

lemma endswith_iff_split: "endswith s ext \<longleftrightarrow> (\<exists>stem. s = stem @ ext)"
proof
  assume "endswith s ext"
  then have "s = take (length s - length ext) s @ ext"
    by (metis append_take_drop_id endswith_def)
  then show "\<exists>stem. s = stem @ ext" ..
next
  assume "\<exists>stem. s = stem @ ext"
  then show "endswith s ext"
    by (auto simp: endswith_def)
qed

lemma endswith_lower_iff:
  "endswith (lower s) ext \<longleftrightarrow> (\<exists>stem sfx. s = stem @ sfx \<and> lower sfx = ext)"
proof
  assume e: "endswith (lower s) ext"
  let ?k = "length s - length ext"
  from e have "lower (drop ?k s) = ext"
    by (simp add: endswith_def length_lower drop_lower)
  moreover have "s = take ?k s @ drop ?k s"
    by simp
  ultimately show "\<exists>stem sfx. s = stem @ sfx \<and> lower sfx = ext"
    by blast
next
  assume "\<exists>stem sfx. s = stem @ sfx \<and> lower sfx = ext"
  then obtain stem sfx where "s = stem @ sfx" and "lower sfx = ext"
    by blast
  then have "lower s = lower stem @ ext"
    by (simp add: lower_append)
  then show "endswith (lower s) ext"
    unfolding endswith_iff_split by blast
qed

section \<open>Claims about the attachment filter\<close>

text \<open>
  Claim C1. An attachment is accepted exactly when its filename ends in a piece of text
  that, lower-cased, is one of \<open>png\<close>, \<open>jpg\<close>, \<open>jpeg\<close>, \<open>gif\<close>; and whether an item of
  a batch is kept depends on that item alone: the items before and after it are filtered
  on their own, and order is kept.
\<close>

theorem attachment_filter_allow_list:
  "(is_acceptable a \<longleftrightarrow>
      (\<exists>stem sfx. filename a = stem @ sfx \<and> lower sfx \<in> {''png'', ''jpg'', ''jpeg'', ''gif''}))
   \<and> valid_images (xs @ a # ys) =
       valid_images xs @ (if is_acceptable a then [a] else []) @ valid_images ys"
proof
  show "is_acceptable a \<longleftrightarrow>
      (\<exists>stem sfx. filename a = stem @ sfx \<and> lower sfx \<in> {''png'', ''jpg'', ''jpeg'', ''gif''})"
    by (simp add: is_acceptable_def image_extensions_def endswith_lower_iff) blast
  show "valid_images (xs @ a # ys) =
       valid_images xs @ (if is_acceptable a then [a] else []) @ valid_images ys"
    by (simp add: valid_images_def)
qed

theorem attachment_filter_allow_list_witness:
  "is_acceptable \<lparr>filename = ''Shot.PNG'', att_size = 1\<rparr>
   \<and> \<not> is_acceptable \<lparr>filename = ''notes.txt'', att_size = 2\<rparr>
   \<and> valid_images [\<lparr>filename = ''notes.txt'', att_size = 2\<rparr>,
        \<lparr>filename = ''Shot.PNG'', att_size = 1\<rparr>, \<lparr>filename = ''a.pdf'', att_size = 3\<rparr>]
      = [\<lparr>filename = ''Shot.PNG'', att_size = 1\<rparr>]"
proof -
  have acc: "is_acceptable \<lparr>filename = ''Shot.PNG'', att_size = 1\<rparr>"
    by (simp add: is_acceptable_def image_extensions_def endswith_def lower_def lower_table)
  have rej: "\<not> is_acceptable \<lparr>filename = ''notes.txt'', att_size = 2\<rparr>"
    by (simp add: is_acceptable_def image_extensions_def endswith_def lower_def lower_table)
  have rej': "\<not> is_acceptable \<lparr>filename = ''a.pdf'', att_size = 3\<rparr>"
    by (simp add: is_acceptable_def image_extensions_def endswith_def lower_def lower_table)
  have "valid_images ([\<lparr>filename = ''notes.txt'', att_size = 2\<rparr>]
          @ \<lparr>filename = ''Shot.PNG'', att_size = 1\<rparr> # [\<lparr>filename = ''a.pdf'', att_size = 3\<rparr>])
        = valid_images [\<lparr>filename = ''notes.txt'', att_size = 2\<rparr>]
          @ (if is_acceptable \<lparr>filename = ''Shot.PNG'', att_size = 1\<rparr>
             then [\<lparr>filename = ''Shot.PNG'', att_size = 1\<rparr>] else [])
          @ valid_images [\<lparr>filename = ''a.pdf'', att_size = 3\<rparr>]"
    using attachment_filter_allow_list by blast
  with acc rej rej' show ?thesis
    by (simp add: valid_images_def)
qed

section \<open>Facts about substitution\<close>

lemma lower_char_eq_at [simp]: "lower_char c = CHR ''@'' \<longleftrightarrow> c = CHR ''@''"
  by (simp add: lower_table)

lemma lower_char_eq_bracket [simp]: "lower_char c = CHR ''['' \<longleftrightarrow> c = CHR ''[''"
  by (simp add: lower_table)

lemma lower_char_at [simp]: "lower_char (CHR ''@'') = CHR ''@''"
  by simp

lemma at_in_lower [simp]: "CHR ''@'' \<in> set (lower s) \<longleftrightarrow> CHR ''@'' \<in> set s"
  by (induction s) (simp_all add: lower_def eq_commute [of "CHR ''@''"])

lemma bracket_in_lower [simp]: "CHR ''['' \<in> set (lower s) \<longleftrightarrow> CHR ''['' \<in> set s"
  by (induction s) (simp_all add: lower_def eq_commute [of "CHR ''[''"])

lemma match_at_Nil [simp]: "match_at p [] \<longleftrightarrow> p = []"
  by (auto simp: match_at_def)

lemma match_at_append: "match_at p A \<Longrightarrow> match_at p (A @ B)"
  by (simp add: match_at_def)

lemma match_at_head:
  assumes "match_at (a # q) (c # s)"
  shows "lower_char c = lower_char a"
  using assms by (simp add: match_at_def lower_def)

lemma match_at_Cons:
  "match_at (a # q) (c # s) \<longleftrightarrow> lower_char c = lower_char a \<and> match_at q s"
  by (auto simp: match_at_def lower_def)

lemma match_at_within:
  assumes m: "match_at p (A @ c # B)"
    and c: "lower_char c \<notin> set (lower (tl p))"
    and A: "A \<noteq> []"
  shows "length p \<le> length A"
proof (rule ccontr)
  assume "\<not> length p \<le> length A"
  then have lt: "length A < length p" by simp
  from m have len: "length p \<le> length (A @ c # B)"
    and eq: "lower (take (length p) (A @ c # B)) = lower p"
    by (simp_all add: match_at_def)
  from lt have "take (length p) (A @ c # B) ! length A = c"
    by (simp add: nth_append)
  moreover from lt len have "length A < length (take (length p) (A @ c # B))"
    by simp
  ultimately have "lower (take (length p) (A @ c # B)) ! length A = lower_char c"
    unfolding lower_def by (metis nth_map)
  with eq have "lower p ! length A = lower_char c" by simp
  moreover from A lt have "lower p ! length A = lower (tl p) ! (length A - 1)"
    by (cases p; cases A) (simp_all add: lower_def)
  moreover from A lt have "length A - 1 < length (lower (tl p))"
    by (cases p; cases A) (simp_all add: lower_def)
  ultimately have "lower_char c \<in> set (lower (tl p))"
    by (metis nth_mem)
  with c show False by contradiction
qed

lemma match_at_take: "match_at p (A @ B) \<Longrightarrow> length p \<le> length A \<Longrightarrow> match_at p A"
  by (simp add: match_at_def)

lemma re_sub_split:
  assumes c: "lower_char c \<notin> set (lower (tl p))"
  shows "re_sub p r (A @ c # B) = re_sub p r A @ re_sub p r (c # B)"
  using c
proof (induction p r A rule: re_sub.induct)
  case (1 pat repl)
  show ?case by simp
next
  case (2 pat repl a s)
  show ?case
  proof (cases "match_at pat ((a # s) @ c # B)")
    case True
    from True "2.prems" have le: "length pat \<le> length (a # s)"
      by (rule match_at_within) simp
    with True have m: "match_at pat (a # s)"
      by (rule match_at_take)
    from le have "drop (length pat - 1) (s @ c # B) = drop (length pat - 1) s @ c # B"
      by simp
    with True m 2 show ?thesis by simp
  next
    case False
    then have "\<not> match_at pat (a # s)"
      using match_at_append by blast
    with False 2 show ?thesis by simp
  qed
qed

lemma re_sub_no_at:
  assumes "CHR ''@'' \<notin> set xs"
  shows "re_sub (CHR ''@'' # q) r (xs @ ys) = xs @ re_sub (CHR ''@'' # q) r ys"
  using assms
proof (induction xs)
  case Nil
  show ?case by simp
next
  case (Cons x xs)
  then have "\<not> match_at (CHR ''@'' # q) (x # xs @ ys)"
    using match_at_head [of "CHR ''@''" q x "xs @ ys"] by auto
  with Cons show ?case by simp
qed

lemma re_sub_id:
  assumes "\<And>i. \<not> match_at p (drop i s)"
  shows "re_sub p r s = s"
  using assms
proof (induction s)
  case Nil
  show ?case by simp
next
  case (Cons c s)
  from Cons.prems [of 0] have "\<not> match_at p (c # s)" by simp
  moreover have "re_sub p r s = s"
  proof (rule Cons.IH)
    fix i
    from Cons.prems [of "Suc i"] show "\<not> match_at p (drop i s)" by simp
  qed
  ultimately show ?case by simp
qed

lemma prefix_copy:
  assumes "prefix q (re_sub p (CHR ''['' # r) y)" and "CHR ''['' \<notin> set q"
  shows "prefix q y"
  using assms
proof (induction q arbitrary: y)
  case Nil
  show ?case by simp
next
  case (Cons a q)
  show ?case
  proof (cases y)
    case Nil
    with Cons.prems show ?thesis by simp
  next
    case (Cons c y')
    show ?thesis
    proof (cases "match_at p (c # y')")
      case True
      with Cons.prems Cons show ?thesis by simp
    next
      case False
      with Cons.prems Cons have "a = c" and "prefix q (re_sub p (CHR ''['' # r) y')"
        by simp_all
      with Cons.IH [of y'] Cons.prems(2) Cons show ?thesis by simp
    qed
  qed
qed

lemma match_at_iff_prefix:
  "match_at p s \<longleftrightarrow> (\<exists>t. prefix t s \<and> lower t = lower p)"
proof
  assume "match_at p s"
  then have "prefix (take (length p) s) s \<and> lower (take (length p) s) = lower p"
    by (simp add: match_at_def take_is_prefix)
  then show "\<exists>t. prefix t s \<and> lower t = lower p" by blast
next
  assume "\<exists>t. prefix t s \<and> lower t = lower p"
  then obtain t u where "s = t @ u" and l: "lower t = lower p"
    by (auto simp: prefix_def)
  moreover from l have "length t = length p"
    by (metis length_lower)
  ultimately show "match_at p s"
    by (simp add: match_at_def)
qed

text \<open>
  A match of a pattern in the output of a substitution pass lies at copied text: the
  replacement holds no \<open>@\<close> and begins with a bracket that no pattern has.
\<close>

lemma match_in_output:
  assumes at: "CHR ''@'' \<notin> set r" and br: "CHR ''['' \<notin> set q1" and p2: "p2 \<noteq> []"
    and m: "match_at (CHR ''@'' # q1) (drop i (re_sub p2 (CHR ''['' # r) s))"
  shows "\<exists>j. match_at (CHR ''@'' # q1) (drop j s) \<and> \<not> match_at p2 (drop j s)"
  using m
proof (induction p2 "CHR ''['' # r" s arbitrary: i rule: re_sub.induct)
  case (1 pat)
  then show ?case by simp
next
  case (2 pat c s)
  let ?p1 = "CHR ''@'' # q1"
  let ?r = "CHR ''['' # r"
  show ?case
  proof (cases "match_at pat (c # s)")
    case True
    let ?Y = "re_sub pat ?r (drop (length pat - 1) s)"
    from True "2.prems" have m: "match_at ?p1 (drop i (?r @ ?Y))" by simp
    have ge: "length ?r \<le> i"
    proof (rule ccontr)
      assume "\<not> length ?r \<le> i"
      then have lt: "i < length ?r" by simp
      then obtain x xs where dx: "drop i ?r = x # xs"
        by (metis drop_eq_Nil2 list.exhaust not_le)
      then have "x \<in> set (drop i ?r)" by simp
      then have "x \<in> set ?r" by (rule in_set_dropD)
      with at have "x \<noteq> CHR ''@''" by auto
      moreover have "drop i (?r @ ?Y) = drop i ?r @ drop (i - length ?r) ?Y"
        by (rule drop_append)
      with lt dx have "drop i (?r @ ?Y) = x # (xs @ ?Y)" by simp
      with m have "lower_char x = lower_char (CHR ''@'')"
        using match_at_head by metis
      ultimately show False by simp
    qed
    moreover have "drop i (?r @ ?Y) = drop i ?r @ drop (i - length ?r) ?Y"
      by (rule drop_append)
    ultimately have "drop i (?r @ ?Y) = drop (i - length ?r) ?Y"
      by (simp del: append_Cons)
    with m have "match_at ?p1 (drop (i - length ?r) ?Y)" by simp
    with "2.hyps"(1) [OF True] obtain j
      where j: "match_at ?p1 (drop j (drop (length pat - 1) s))"
        "\<not> match_at pat (drop j (drop (length pat - 1) s))"
      by blast
    have "drop j (drop (length pat - 1) s) = drop (Suc (j + (length pat - 1))) (c # s)"
      by simp
    with j show ?thesis by metis
  next
    case False
    let ?Y = "re_sub pat ?r s"
    from False "2.prems" have m: "match_at ?p1 (drop i (c # ?Y))" by simp
    show ?thesis
    proof (cases i)
      case 0
      with m obtain t where t: "prefix t (c # ?Y)" "lower t = lower ?p1"
        unfolding match_at_iff_prefix by auto
      then obtain t' where tt: "t = c # t'" "prefix t' ?Y" "lower t' = lower q1"
        by (cases t) (auto simp: lower_def)
      from tt(3) br have "CHR ''['' \<notin> set t'"
        by (metis bracket_in_lower)
      with tt(2) have "prefix t' s" by (rule prefix_copy)
      with tt(1) have "prefix t (c # s)" by simp
      with t(2) have "match_at ?p1 (c # s)"
        unfolding match_at_iff_prefix by blast
      with False have "match_at ?p1 (drop 0 (c # s)) \<and> \<not> match_at pat (drop 0 (c # s))"
        by simp
      then show ?thesis by blast
    next
      case (Suc i')
      with m have "match_at ?p1 (drop i' ?Y)" by simp
      with "2.hyps"(2) [OF False] obtain j
        where "match_at ?p1 (drop j s)" "\<not> match_at pat (drop j s)"
        by blast
      then have "match_at ?p1 (drop (Suc j) (c # s)) \<and> \<not> match_at pat (drop (Suc j) (c # s))"
        by simp
      then show ?thesis by blast
    qed
  qed
qed


lemma no_match_after_pass:
  assumes "CHR ''@'' \<notin> set r" and "CHR ''['' \<notin> set q"
  shows "\<not> match_at (CHR ''@'' # q) (drop i (re_sub (CHR ''@'' # q) (CHR ''['' # r) s))"
  using match_in_output [OF assms, of "CHR ''@'' # q" i s] by blast

lemma sanitize_no_everyone: "\<not> match_at ''@everyone'' (drop i (sanitize_message x))"
proof
  assume "match_at ''@everyone'' (drop i (sanitize_message x))"
  then have "\<exists>j. match_at ''@everyone'' (drop j (re_sub ''@everyone'' ''[at everyone]'' x))
      \<and> \<not> match_at ''@here'' (drop j (re_sub ''@everyone'' ''[at everyone]'' x))"
    unfolding sanitize_message_def by (intro match_in_output [of "''at here]''"]) simp_all
  then show False
    using no_match_after_pass [of "''at everyone]''" "''everyone''"] by auto
qed

lemma sanitize_no_here: "\<not> match_at ''@here'' (drop i (sanitize_message x))"
  unfolding sanitize_message_def by (rule no_match_after_pass) simp_all

text \<open>
  Claim C9. Sanitizing is idempotent: the sanitized text holds no occurrence of either
  token any more, so a second pass copies it.
\<close>

theorem sanitize_idempotent: "sanitize_message (sanitize_message x) = sanitize_message x"
proof -
  have "re_sub ''@everyone'' ''[at everyone]'' (sanitize_message x) = sanitize_message x"
    by (rule re_sub_id) (rule sanitize_no_everyone)
  moreover have "re_sub ''@here'' ''[at here]'' (sanitize_message x) = sanitize_message x"
    by (rule re_sub_id) (rule sanitize_no_here)
  ultimately show ?thesis
    by (simp add: sanitize_message_def)
qed

lemma lower_eq_Cons: "lower t = a # u \<longleftrightarrow> (\<exists>c t'. t = c # t' \<and> lower_char c = a \<and> lower t' = u)"
  by (cases t) (auto simp: lower_def)

lemma re_sub_match:
  assumes "lower t = lower p" and "p \<noteq> []"
  shows "re_sub p r (t @ post) = r @ re_sub p r post"
proof -
  from assms have len: "length t = length p"
    by (metis length_lower)
  with assms obtain c t' where t: "t = c # t'"
    by (cases t) auto
  from assms len have "match_at p (t @ post)"
    by (simp add: match_at_def)
  moreover from len t have "drop (length p - 1) (t' @ post) = post"
    by simp
  ultimately show ?thesis
    using t by simp
qed

lemma sanitize_everyone:
  assumes "lower t = ''@everyone''"
  shows "sanitize_message (pre @ t @ post) =
         sanitize_message pre @ ''[at everyone]'' @ sanitize_message post"
proof -
  let ?S1 = "re_sub ''@everyone'' ''[at everyone]''"
  let ?S2 = "re_sub ''@here'' ''[at here]''"
  from assms obtain t' where t: "t = CHR ''@'' # t'"
    by (auto simp: lower_eq_Cons)
  have low: "lower ''@everyone'' = ''@everyone''"
    by (simp add: lower_def lower_table)
  have "?S1 (pre @ t @ post) = ?S1 pre @ ?S1 (t @ post)"
    unfolding t append_Cons by (rule re_sub_split) (simp add: lower_def lower_table)
  also have "?S1 (t @ post) = ''[at everyone]'' @ ?S1 post"
    by (rule re_sub_match) (simp_all add: assms low)
  finally have one: "?S1 (pre @ t @ post) = ?S1 pre @ CHR ''['' # (''at everyone]'' @ ?S1 post)"
    by simp
  have "?S2 (?S1 pre @ CHR ''['' # (''at everyone]'' @ ?S1 post))
        = ?S2 (?S1 pre) @ ?S2 (CHR ''['' # (''at everyone]'' @ ?S1 post))"
    by (rule re_sub_split) (simp add: lower_def lower_table)
  also have "?S2 (CHR ''['' # (''at everyone]'' @ ?S1 post)) = ?S2 (''[at everyone]'' @ ?S1 post)"
    by simp
  also have "\<dots> = ''[at everyone]'' @ ?S2 (?S1 post)"
    by (rule re_sub_no_at) simp
  finally show ?thesis
    by (simp add: sanitize_message_def one)
qed

lemma sanitize_here:
  assumes "lower t = ''@here''"
  shows "sanitize_message (pre @ t @ post) =
         sanitize_message pre @ ''[at here]'' @ sanitize_message post"
proof -
  let ?S1 = "re_sub ''@everyone'' ''[at everyone]''"
  let ?S2 = "re_sub ''@here'' ''[at here]''"
  from assms obtain t' where t: "t = CHR ''@'' # t'" and t': "lower t' = ''here''"
    by (auto simp: lower_eq_Cons)
  have "CHR ''@'' \<notin> set (lower t')"
    by (simp add: t')
  then have noat: "CHR ''@'' \<notin> set t'"
    by simp
  have low: "lower ''@here'' = ''@here''"
    by (simp add: lower_def lower_table)
  from t' obtain c1 t'' where c1: "t' = c1 # t''" "lower_char c1 = CHR ''h''"
    by (auto simp: lower_eq_Cons)
  have "lower_char (CHR ''e'') = CHR ''e''"
    by (simp add: lower_table)
  with c1 have nm: "\<not> match_at ''@everyone'' (CHR ''@'' # t' @ post)"
    by (simp add: match_at_Cons)
  have "?S1 (pre @ t @ post) = ?S1 pre @ ?S1 (t @ post)"
    unfolding t append_Cons by (rule re_sub_split) (simp add: lower_def lower_table)
  also have "?S1 (t @ post) = CHR ''@'' # ?S1 (t' @ post)"
    using nm by (simp add: t)
  also have "?S1 (t' @ post) = t' @ ?S1 post"
    using noat by (rule re_sub_no_at)
  finally have one: "?S1 (pre @ t @ post) = ?S1 pre @ CHR ''@'' # (t' @ ?S1 post)"
    by simp
  have "?S2 (?S1 pre @ CHR ''@'' # (t' @ ?S1 post))
        = ?S2 (?S1 pre) @ ?S2 (CHR ''@'' # (t' @ ?S1 post))"
    by (rule re_sub_split) (simp add: lower_def lower_table)
  also have "?S2 (CHR ''@'' # (t' @ ?S1 post)) = ?S2 (t @ ?S1 post)"
    by (simp add: t)
  also have "\<dots> = ''[at here]'' @ ?S2 (?S1 post)"
    by (rule re_sub_match) (simp_all add: assms low)
  finally show ?thesis
    by (simp add: sanitize_message_def one)
qed

lemma match_at_occurrence:
  assumes "match_at p (drop i s)"
  shows "\<exists>pre t post. s = pre @ t @ post \<and> lower t = lower p"
proof -
  from assms obtain t where "prefix t (drop i s)" and l: "lower t = lower p"
    unfolding match_at_iff_prefix by blast
  then obtain post where "drop i s = t @ post"
    by (auto simp: prefix_def)
  then have "s = take i s @ t @ post"
    by (metis append_take_drop_id)
  with l show ?thesis by blast
qed

lemma sanitize_clean:
  assumes "\<And>pre t post. s = pre @ t @ post \<Longrightarrow> lower t \<notin> {''@everyone'', ''@here''}"
  shows "sanitize_message s = s"
proof -
  have low: "lower ''@everyone'' = ''@everyone''" "lower ''@here'' = ''@here''"
    by (simp_all add: lower_def lower_table)
  have "\<not> match_at ''@everyone'' (drop i s)" for i
    using match_at_occurrence [of "''@everyone''" i s] assms low by auto
  then have "re_sub ''@everyone'' ''[at everyone]'' s = s"
    by (rule re_sub_id)
  moreover have "\<not> match_at ''@here'' (drop i s)" for i
    using match_at_occurrence [of "''@here''" i s] assms low by auto
  then have "re_sub ''@here'' ''[at here]'' s = s"
    by (rule re_sub_id)
  ultimately show ?thesis
    by (simp add: sanitize_message_def)
qed

text \<open>
  Claim C8. Wherever a piece \<open>t\<close> of the input is \<open>@everyone\<close> up to case, it is
  replaced by \<open>[at everyone]\<close>, and wherever it is \<open>@here\<close> up to case, by \<open>[at here]\<close>,
  the text before and the text after being sanitized on their own; and a text that has no
  such piece comes out unchanged. These three equations determine the function: all
  occurrences are replaced and nothing else is touched.
\<close>

theorem sanitize_replaces_mentions:
  "(lower t = ''@everyone'' \<longrightarrow>
      sanitize_message (pre @ t @ post) =
      sanitize_message pre @ ''[at everyone]'' @ sanitize_message post)
   \<and> (lower t = ''@here'' \<longrightarrow>
      sanitize_message (pre @ t @ post) =
      sanitize_message pre @ ''[at here]'' @ sanitize_message post)
   \<and> ((\<forall>p u q. s = p @ u @ q \<longrightarrow> lower u \<notin> {''@everyone'', ''@here''}) \<longrightarrow>
      sanitize_message s = s)"
  using sanitize_everyone sanitize_here sanitize_clean by blast


theorem sanitize_replaces_mentions_witness:
  "lower ''@EveryOne'' = ''@everyone''
   \<and> sanitize_message ''hi @EveryOne!'' = ''hi [at everyone]!''
   \<and> lower ''@HERE'' = ''@here''
   \<and> sanitize_message ''ping @HERE now'' = ''ping [at here] now''
   \<and> sanitize_message ''hello'' = ''hello''"
proof -
  have l1: "lower ''@EveryOne'' = ''@everyone''" and l2: "lower ''@HERE'' = ''@here''"
    by (simp_all add: lower_def lower_table)
  have clean: "\<forall>p u q. ''hello'' = p @ u @ q \<longrightarrow> lower u \<notin> {''@everyone'', ''@here''}"
  proof (intro allI impI)
    fix p u q :: string
    assume "''hello'' = p @ u @ q"
    then have "set u \<subseteq> set ''hello''"
      by (metis set_append sup_ge1 sup_ge2 subset_trans)
    then have "CHR ''@'' \<notin> set u"
      by auto
    then show "lower u \<notin> {''@everyone'', ''@here''}"
      by (auto simp: lower_eq_Cons)
  qed
  have e: "sanitize_message ''hi '' = ''hi ''" "sanitize_message ''!'' = ''!''"
    "sanitize_message ''ping '' = ''ping ''" "sanitize_message '' now'' = '' now''"
    by (simp_all add: sanitize_message_def match_at_def lower_def lower_table)
  from l1 have "sanitize_message (''hi '' @ ''@EveryOne'' @ ''!'') =
      sanitize_message ''hi '' @ ''[at everyone]'' @ sanitize_message ''!''"
    using sanitize_replaces_mentions [of "''@EveryOne''" "''hi ''" "''!''"] by blast
  moreover from l2 have "sanitize_message (''ping '' @ ''@HERE'' @ '' now'') =
      sanitize_message ''ping '' @ ''[at here]'' @ sanitize_message '' now''"
    using sanitize_replaces_mentions [of "''@HERE''" "''ping ''" "'' now''"] by blast
  moreover from clean have "sanitize_message ''hello'' = ''hello''"
    using sanitize_replaces_mentions [of _ _ _ "''hello''"] by blast
  ultimately show ?thesis
    using l1 l2 e by simp
qed

section \<open>The collection loop, one input at a time\<close>

lemmas demo_defs = env_demo_def env_done_def env_forbidden_def reporter_def shot_def memo_def
  from_reporter_def

lemmas fail_defs = env_embed_fails_def env_ack_fails_def

lemmas run_defs = session_def loop_body_def loop_try_def wait_for_def call_def check_def
  valid_images_def is_acceptable_def image_extensions_def endswith_def lower_def lower_table

lemma find_first:
  assumes "P m" and "\<not> list_ex P earlier"
  shows "find P (earlier @ m # later) = Some m"
  using assms by (induction earlier) simp_all

lemma collect_done:
  assumes "find (check env) (inbox env i) = Some m" and "lower (content m) = ''done''"
  shows "collect env i images tr = Some (Inr images, tr @ [WaitFor])"
  by (subst collect.simps) (simp add: loop_body_def loop_try_def wait_for_def assms)

text \<open>
  Claim C6. Whatever the evidence collected so far and whatever happened before, when
  the input the wait returns is \<open>done\<close> up to case, the loop ends there with the evidence
  unchanged: the run does nothing after the wait, and no later window is looked at.
\<close>

theorem done_closes_session:
  assumes "find (check env) (inbox env i) = Some m" and "lower (content m) = lower ''done''"
  shows "collect env i images tr = Some (Inr images, tr @ [WaitFor])"
proof -
  have "lower ''done'' = ''done''"
    by (simp add: lower_def lower_table)
  with assms show ?thesis
    by (simp add: collect_done)
qed

theorem done_closes_session_witness:
  "collect env_demo 2 [shot] [WaitFor] = Some (Inr [shot], [WaitFor, WaitFor])"
proof -
  have "find (check env_demo) (inbox env_demo 2) = Some (from_reporter ''Done'' [shot])"
    by (simp add: check_def demo_defs lower_def lower_table)
  moreover have "lower (content (from_reporter ''Done'' [shot])) = lower ''done''"
    by (simp add: demo_defs lower_def lower_table)
  ultimately show ?thesis
    using done_closes_session [of env_demo 2 "from_reporter ''Done'' [shot]" "[shot]" "[WaitFor]"]
    by simp
qed

text \<open>
  Claim C10. A message of the reporter in the private channel that carries attachments
  and whose text is \<open>done\<close> up to case qualifies, and when it is the first qualifying
  message of the window the loop ends with the evidence as it was: none of its
  attachments is collected, acceptable or not.
\<close>

theorem done_with_attachments_closes:
  assumes "author m = member_id (ctx_author env)" and "channel m = dm_channel env"
    and "attachments m \<noteq> []" and "lower (content m) = ''done''"
    and "inbox env i = earlier @ m # later" and "\<not> list_ex (check env) earlier"
  shows "check env m \<and> collect env i images tr = Some (Inr images, tr @ [WaitFor])"
proof -
  from assms(1-3) have c: "check env m"
    by (simp add: check_def)
  with assms(5,6) have "find (check env) (inbox env i) = Some m"
    by (simp add: find_first)
  with assms(4) c show ?thesis
    by (simp add: collect_done)
qed

theorem done_with_attachments_closes_witness:
  "check env_demo (from_reporter ''Done'' [shot])
   \<and> collect env_demo 2 [] [] = Some (Inr [], [WaitFor])"
proof -
  let ?m = "from_reporter ''Done'' [shot]"
  have "author ?m = member_id (ctx_author env_demo)" "channel ?m = dm_channel env_demo"
    "attachments ?m \<noteq> []" "lower (content ?m) = ''done''"
    "inbox env_demo 2 = [] @ ?m # []" "\<not> list_ex (check env_demo) []"
    by (simp_all add: demo_defs lower_def lower_table)
  then show ?thesis
    using done_with_attachments_closes [of ?m env_demo 2 "[]" "[]" "[]" "[]"]
    by simp
qed



lemma collect_continue:
  assumes "loop_body env i images tr = (Inr Continue, images', tr')"
  shows "collect env i images tr = collect env (Suc i) images' tr'"
  by (subst collect.simps) (simp add: assms)

text \<open>
  Claim C3, amended. Let the wait return a message that is not \<open>done\<close>. Then it carries
  attachments, and the \<open>try\<close> block ends with the acceptable ones, in their order of
  arrival, appended to the evidence (so with the evidence unchanged when none is
  acceptable) and with one notice sent: the rejection notice when none is acceptable,
  otherwise the acknowledgement that states their number. The loop goes on to the next
  wait exactly when the send of the notice returns; an exception of the send ends the
  collection.
\<close>

theorem attachments_step:
  assumes "find (check env) (inbox env i) = Some m" and "lower (content m) \<noteq> ''done''"
  shows "let valid = filter is_acceptable (attachments m);
             notice = (if valid = [] then rejection_text
                       else check_mark @ '' Received '' @ str_nat (length valid) @ '' image''
                         @ plural (length valid) @ ''. Send more or type '' @ [CHR 0x60]
                         @ ''done'' @ [CHR 0x60] @ '' to finish.'');
             tr' = tr @ [WaitFor, Send (dm_channel env) (Content notice)]
         in attachments m \<noteq> []
          \<and> loop_try env i images tr =
              ((case raises env (Suc (length tr)) of None \<Rightarrow> Inr Continue | Some e \<Rightarrow> Inl e),
               images @ valid, tr')
          \<and> (fst (loop_body env i images tr) = Inr Continue
               \<longleftrightarrow> raises env (Suc (length tr)) = None)
          \<and> (raises env (Suc (length tr)) = None \<longrightarrow>
               loop_body env i images tr = (Inr Continue, images @ valid, tr')
               \<and> collect env i images tr = collect env (Suc i) (images @ valid) tr')"
proof -
  from assms(1) have "check env m"
    by (auto simp: find_Some_iff)
  with assms(2) have att: "attachments m \<noteq> []"
    by (simp add: check_def)
  let ?valid = "filter is_acceptable (attachments m)"
  let ?notice = "if ?valid = [] then rejection_text
               else check_mark @ '' Received '' @ str_nat (length ?valid)
                 @ '' image'' @ plural (length ?valid)
                 @ ''. Send more or type '' @ [CHR 0x60] @ ''done'' @ [CHR 0x60] @ '' to finish.''"
  have lt: "loop_try env i images tr =
        ((case raises env (Suc (length tr)) of None \<Rightarrow> Inr Continue | Some e \<Rightarrow> Inl e),
         images @ ?valid, tr @ [WaitFor, Send (dm_channel env) (Content ?notice)])"
    using assms att
    by (simp add: loop_try_def wait_for_def call_def received_text_def valid_images_def Let_def
        split: option.split)
  have cont: "fst (loop_body env i images tr) = Inr Continue \<longleftrightarrow> raises env (Suc (length tr)) = None"
    unfolding loop_body_def lt
    by (auto simp: call_def split: option.splits exn.splits)
  have same: "loop_body env i images tr = loop_try env i images tr"
    if "raises env (Suc (length tr)) = None"
    unfolding loop_body_def lt using that by simp
  have body: "loop_body env i images tr =
      (Inr Continue, images @ ?valid, tr @ [WaitFor, Send (dm_channel env) (Content ?notice)])"
    if "raises env (Suc (length tr)) = None"
    using same [OF that] that by (simp add: lt)
  have "collect env i images tr =
      collect env (Suc i) (images @ ?valid) (tr @ [WaitFor, Send (dm_channel env) (Content ?notice)])"
    if "raises env (Suc (length tr)) = None"
    using body [OF that] by (rule collect_continue)
  with att lt cont body show ?thesis
    unfolding Let_def by blast
qed

theorem attachments_step_witness:
  "loop_body env_demo 0 [] [] = (Inr Continue, [shot], [WaitFor, Send 9 (Content (received_text 1))])
   \<and> loop_body env_demo 1 [shot] [] = (Inr Continue, [shot], [WaitFor, Send 9 (Content rejection_text)])
   \<and> fst (loop_body env_ack_fails 0 [] [Defer, Respond dm_notice_text, CreateDM, Send 9 (Content prompt_text)])
       \<noteq> Inr Continue"
proof -
  let ?m0 = "from_reporter [] [shot, memo]"
  let ?m1 = "from_reporter ''look'' [memo]"
  have f0: "find (check env_demo) (inbox env_demo 0) = Some ?m0"
    and f1: "find (check env_demo) (inbox env_demo 1) = Some ?m1"
    and f2: "find (check env_ack_fails) (inbox env_ack_fails 0) = Some ?m0"
    by (simp_all add: check_def demo_defs fail_defs)
  have n0: "lower (content ?m0) \<noteq> ''done''" and n1: "lower (content ?m1) \<noteq> ''done''"
    by (simp_all add: demo_defs lower_def lower_table)
  have r: "raises env_demo k = None" for k
    by (simp add: demo_defs)
  have r2: "raises env_ack_fails (Suc (length [Defer, Respond dm_notice_text, CreateDM,
      Send 9 (Content prompt_text)])) \<noteq> None"
    by (simp add: demo_defs fail_defs)
  have v0: "filter is_acceptable (attachments ?m0) = [shot]"
    and v1: "filter is_acceptable (attachments ?m1) = []"
    by (simp_all add: demo_defs is_acceptable_def image_extensions_def endswith_def lower_def lower_table)
  have d: "dm_channel env_demo = 9"
    by (simp add: demo_defs)
  from attachments_step [OF f0 n0, where images = "[]" and tr = "[]"] v0 d r
  have "loop_body env_demo 0 [] [] = (Inr Continue, [shot], [WaitFor, Send 9 (Content (received_text 1))])"
    by (simp add: received_text_def Let_def)
  moreover from attachments_step [OF f1 n1, where images = "[shot]" and tr = "[]"] v1 d r
  have "loop_body env_demo 1 [shot] [] = (Inr Continue, [shot], [WaitFor, Send 9 (Content rejection_text)])"
    by (simp add: Let_def)
  moreover from attachments_step [OF f2 n0, where images = "[]"
      and tr = "[Defer, Respond dm_notice_text, CreateDM, Send 9 (Content prompt_text)]"] r2
  have "fst (loop_body env_ack_fails 0 [] [Defer, Respond dm_notice_text, CreateDM, Send 9 (Content prompt_text)])
       \<noteq> Inr Continue"
    unfolding Let_def by blast
  ultimately show ?thesis by simp
qed

section \<open>Delivery\<close>

lemma all_return_Suc_end:
  "all_return env k (Suc n) \<longleftrightarrow> all_return env k n \<and> raises env (k + n) = None"
  by (induction n arbitrary: k) auto

lemma all_return_delivery:
  "all_return env k (Suc (Suc n)) \<longleftrightarrow>
   raises env k = None \<and> all_return env (Suc k) n \<and> raises env (Suc (k + n)) = None"
  using all_return_Suc_end [of env "Suc k" n] by auto

lemma loop_body_trace:
  assumes "loop_body env i images tr = (r, images', tr')"
  shows "\<exists>ext. tr' = tr @ ext \<and> filter is_delivery ext = []"
proof -
  obtain r1 im1 t1 where lt: "loop_try env i images tr = (r1, im1, t1)"
    by (cases "loop_try env i images tr") auto
  have "t1 = tr @ [WaitFor] \<or> (\<exists>t. t1 = tr @ [WaitFor, Send (dm_channel env) (Content t)])"
    using lt
    by (auto simp: loop_try_def wait_for_def call_def Let_def
        split: option.splits if_splits)
  moreover have "tr' = t1 \<or> tr' = t1 @ [Send (dm_channel env) (Content timeout_text)]"
    using assms lt
    by (auto simp: loop_body_def call_def split: sum.splits exn.splits if_splits option.splits)
  ultimately show ?thesis
    by auto
qed

lemma collect_trace_aux:
  assumes "collect env i images tr = Some y"
  shows "\<exists>ext. snd y = tr @ ext \<and> filter is_delivery ext = []"
proof (rule collect.raw_induct
    [where P = "\<lambda>env i images tr y. \<exists>ext. snd y = tr @ ext \<and> filter is_delivery ext = []",
      OF _ assms], goal_cases)
  case (1 collect' env i images tr y)
  note IH = 1(1) and eq = 1(2)
  obtain r1 im1 t1 where lb: "loop_body env i images tr = (r1, im1, t1)"
    by (cases "loop_body env i images tr") auto
  then obtain ext1 where e1: "t1 = tr @ ext1" "filter is_delivery ext1 = []"
    using loop_body_trace by blast
  show ?case
  proof (cases r1)
    case (Inl e)
    with eq lb e1 show ?thesis by auto
  next
    case (Inr f)
    show ?thesis
    proof (cases f)
      case Break
      with eq lb e1 Inr show ?thesis by auto
    next
      case Continue
      with eq lb Inr have "collect' env (Suc i) im1 t1 = Some y"
        by simp
      then obtain ext2 where "snd y = t1 @ ext2" "filter is_delivery ext2 = []"
        using IH by blast
      with e1 have "snd y = tr @ (ext1 @ ext2) \<and> filter is_delivery (ext1 @ ext2) = []"
        by simp
      then show ?thesis by blast
    qed
  qed
qed

lemma collect_trace:
  assumes "collect env i images tr = Some (r, tr')"
  shows "\<exists>ext. tr' = tr @ ext \<and> filter is_delivery ext = []"
  using collect_trace_aux [OF assms] by simp

lemma session_trace:
  assumes "session env tr = Some (r, tr')"
  shows "\<exists>ext. tr' = tr @ ext \<and> filter is_delivery ext = []"
proof (cases "raises env (length tr)")
  case (Some e)
  with assms show ?thesis
    by (auto simp: session_def call_def)
next
  case None
  show ?thesis
  proof (cases "raises env (Suc (length tr))")
    case (Some e)
    with None assms show ?thesis
      by (auto simp: session_def call_def)
  next
    case n2: None
    with None assms have
      "collect env 0 [] (tr @ [CreateDM, Send (dm_channel env) (Content prompt_text)]) = Some (r, tr')"
      by (simp add: session_def call_def)
    then obtain ext where "tr' = (tr @ [CreateDM, Send (dm_channel env) (Content prompt_text)]) @ ext"
      "filter is_delivery ext = []"
      using collect_trace by blast
    then have "tr' = tr @ ([CreateDM, Send (dm_channel env) (Content prompt_text)] @ ext)
       \<and> filter is_delivery ([CreateDM, Send (dm_channel env) (Content prompt_text)] @ ext) = []"
      by simp
    then show ?thesis by blast
  qed
qed

lemma to_files_returns:
  assumes "all_return env (length tr) (length images)"
  shows "to_files env images tr = (Inr images, tr @ map ToFile images)"
  using assms
proof (induction images arbitrary: tr)
  case Nil
  show ?case by simp
next
  case (Cons img imgs)
  then have "raises env (length tr) = None" and "all_return env (length (tr @ [ToFile img])) (length imgs)"
    by simp_all
  with Cons.IH [of "tr @ [ToFile img]"] show ?case
    by (simp add: call_def)
qed

lemma to_files_raises:
  assumes "\<not> all_return env (length tr) (length images)"
  shows "\<exists>e n. to_files env images tr = (Inl e, tr @ map ToFile (take n images))"
  using assms
proof (induction images arbitrary: tr)
  case Nil
  then show ?case by simp
next
  case (Cons img imgs)
  show ?case
  proof (cases "raises env (length tr)")
    case (Some e)
    then have "to_files env (img # imgs) tr = (Inl e, tr @ map ToFile (take 1 (img # imgs)))"
      by (simp add: call_def)
    then show ?thesis by blast
  next
    case None
    with Cons.prems have "\<not> all_return env (length (tr @ [ToFile img])) (length imgs)"
      by simp
    then obtain e n where "to_files env imgs (tr @ [ToFile img]) = (Inl e, (tr @ [ToFile img]) @ map ToFile (take n imgs))"
      using Cons.IH by blast
    with None have "to_files env (img # imgs) tr = (Inl e, tr @ map ToFile (take (Suc n) (img # imgs)))"
      by (simp add: call_def)
    then show ?thesis by blast
  qed
qed

lemma filter_ToFile [simp]:
  "filter is_delivery (map ToFile xs) = []" "filter is_text_send (map ToFile xs) = []"
  by (induction xs) simp_all

lemma deliver_returns:
  assumes "all_return env (length tr) (delivery_calls images)"
  shows "deliver env mc s user images tr =
     call env (Send (dm_channel env) (Content (success_text images)))
       (tr @ Send mc (Embed (make_embed env s user images)) # phase_two mc images)"
proof (cases "images = []")
  case True
  with assms show ?thesis
    by (simp add: deliver_def call_def delivery_calls_def phase_two_def)
next
  case False
  let ?e = "Send mc (Embed (make_embed env s user images))"
  from False assms have "all_return env (length tr) (Suc (Suc (length images)))"
    by (simp add: delivery_calls_def)
  then have r0: "raises env (length tr) = None"
    and r1: "all_return env (length (tr @ [?e])) (length images)"
    and r2: "raises env (length (tr @ [?e] @ map ToFile images)) = None"
    unfolding all_return_delivery by simp_all
  from r1 have "to_files env images (tr @ [?e]) = (Inr images, (tr @ [?e]) @ map ToFile images)"
    by (rule to_files_returns)
  with False r0 r2 show ?thesis
    by (simp add: deliver_def call_def phase_two_def)
qed

lemma deliver_raises:
  assumes "\<not> all_return env (length tr) (delivery_calls images)"
  shows "\<exists>e ext. deliver env mc s user images tr =
       (Inl e, tr @ Send mc (Embed (make_embed env s user images)) # ext)
     \<and> filter is_text_send ext = []
     \<and> filter is_delivery ext =
         (if images \<noteq> [] \<and> all_return env (length tr) (Suc (length images))
          then [Send mc (Files images)] else [])"
proof (cases "raises env (length tr)")
  case (Some e)
  then have "deliver env mc s user images tr =
      (Inl e, tr @ Send mc (Embed (make_embed env s user images)) # [])"
    by (simp add: deliver_def call_def)
  with Some show ?thesis by auto
next
  case None
  let ?e = "Send mc (Embed (make_embed env s user images))"
  from None assms have ne: "images \<noteq> []"
    by (auto simp: delivery_calls_def)
  show ?thesis
  proof (cases "all_return env (length (tr @ [?e])) (length images)")
    case False
    then obtain e n where "to_files env images (tr @ [?e]) = (Inl e, (tr @ [?e]) @ map ToFile (take n images))"
      using to_files_raises by blast
    with None ne have "deliver env mc s user images tr = (Inl e, tr @ ?e # map ToFile (take n images))"
      by (simp add: deliver_def call_def)
    moreover from False have "\<not> all_return env (length tr) (Suc (length images))"
      by simp
    ultimately show ?thesis by auto
  next
    case True
    then have tf: "to_files env images (tr @ [?e]) = (Inr images, (tr @ [?e]) @ map ToFile images)"
      by (rule to_files_returns)
    from ne assms have "\<not> all_return env (length tr) (Suc (Suc (length images)))"
      by (simp add: delivery_calls_def)
    with None True have "raises env (length (tr @ [?e] @ map ToFile images)) \<noteq> None"
      unfolding all_return_delivery by simp
    then obtain e where "raises env (length (tr @ [?e] @ map ToFile images)) = Some e"
      by auto
    with None ne tf have "deliver env mc s user images tr =
        (Inl e, tr @ ?e # (map ToFile images @ [Send mc (Files images)]))"
      by (simp add: deliver_def call_def)
    moreover from None True have "all_return env (length tr) (Suc (length images))"
      by simp
    ultimately show ?thesis using ne by auto
  qed
qed

lemma handle_exn_trace:
  "\<exists>out ext. handle_exn env (r, t) = (out, t @ ext)
     \<and> filter is_delivery ext = [] \<and> filter is_text_send ext = []
     \<and> (r = Inr () \<longrightarrow> ext = [] \<and> out = Inr ())"
  by (cases r) (auto simp: handle_exn_def call_def split: exn.splits option.splits)

lemma report_after_session:
  assumes "mod_channel env = Some mc" and "raises env 0 = None" and "raises env 1 = None"
    and "session env [Defer, Respond dm_notice_text] = Some (Inr images, tr1)"
  shows "report env message user =
     Some (handle_exn env (deliver env mc (sanitize_message message) user images tr1))"
  using assms by (simp add: report_def call_def try_body_def)

lemma session_env_done:
  "session env_done [Defer, Respond dm_notice_text] =
     Some (Inr [], [Defer, Respond dm_notice_text, CreateDM, Send 9 (Content prompt_text), WaitFor])"
  by (simp add: collect.simps run_defs demo_defs)

lemma session_env_forbidden:
  "session env_forbidden [Defer, Respond dm_notice_text] =
     Some (Inr [], [Defer, Respond dm_notice_text, CreateDM, Send 9 (Content prompt_text), WaitFor])"
  by (simp add: collect.simps run_defs demo_defs)

lemma session_env_demo:
  "session env_demo [Defer, Respond dm_notice_text] =
     Some (Inr [shot], [Defer, Respond dm_notice_text, CreateDM, Send 9 (Content prompt_text),
       WaitFor, Send 9 (Content (received_text 1)), WaitFor, Send 9 (Content rejection_text), WaitFor])"
  by (simp add: collect.simps run_defs demo_defs)

lemma report_after_failed_session:
  assumes "mod_channel env = Some mc" and "raises env 0 = None" and "raises env 1 = None"
    and "session env [Defer, Respond dm_notice_text] = Some (Inl e, tr1)"
  shows "report env message user = Some (handle_exn env (Inl e, tr1))"
  using assms by (simp add: report_def call_def try_body_def)

lemma session_env_embed_fails:
  "session env_embed_fails [Defer, Respond dm_notice_text] =
     Some (Inr [shot], [Defer, Respond dm_notice_text, CreateDM, Send 9 (Content prompt_text),
       WaitFor, Send 9 (Content (received_text 1)), WaitFor, Send 9 (Content rejection_text), WaitFor])"
  by (simp add: collect.simps run_defs demo_defs fail_defs)

lemma session_env_ack_fails:
  "session env_ack_fails [Defer, Respond dm_notice_text] =
     Some (Inl (OtherException ''500 Internal Server Error''),
       [Defer, Respond dm_notice_text, CreateDM, Send 9 (Content prompt_text),
        WaitFor, Send 9 (Content (received_text 1))])"
  by (simp add: collect.simps run_defs demo_defs fail_defs)

text \<open>
  Claim C2, as stated, fails: one image has been collected when the loop ends, the send
  of the embed raises, and the run makes no second send to the moderation channel.
\<close>

theorem bundle_not_sent_after_failed_embed:
  "session env_embed_fails [Defer, Respond dm_notice_text] =
     Some (Inr [shot], [Defer, Respond dm_notice_text, CreateDM, Send 9 (Content prompt_text),
       WaitFor, Send 9 (Content (received_text 1)), WaitFor, Send 9 (Content rejection_text), WaitFor])
   \<and> report env_embed_fails ''Test report'' None =
     Some (Inr (), [Defer, Respond dm_notice_text, CreateDM, Send 9 (Content prompt_text),
       WaitFor, Send 9 (Content (received_text 1)), WaitFor, Send 9 (Content rejection_text), WaitFor,
       Send 7 (Embed (make_embed env_embed_fails ''Test report'' None [shot])),
       LogError (log_text env_embed_fails (OtherException ''500 Internal Server Error'')),
       Respond generic_error_text])
   \<and> length [shot] > 0
   \<and> filter is_delivery [Defer, Respond dm_notice_text, CreateDM, Send 9 (Content prompt_text),
       WaitFor, Send 9 (Content (received_text 1)), WaitFor, Send 9 (Content rejection_text), WaitFor,
       Send 7 (Embed (make_embed env_embed_fails ''Test report'' None [shot])),
       LogError (log_text env_embed_fails (OtherException ''500 Internal Server Error'')),
       Respond generic_error_text]
     = [Send 7 (Embed (make_embed env_embed_fails ''Test report'' None [shot]))]"
proof -
  have "sanitize_message ''Test report'' = ''Test report''"
    by (simp add: sanitize_message_def match_at_def lower_def lower_table)
  moreover have "report env_embed_fails ''Test report'' None =
      Some (handle_exn env_embed_fails (deliver env_embed_fails 7 (sanitize_message ''Test report'') None [shot]
        [Defer, Respond dm_notice_text, CreateDM, Send 9 (Content prompt_text),
       WaitFor, Send 9 (Content (received_text 1)), WaitFor, Send 9 (Content rejection_text), WaitFor]))"
    by (rule report_after_session [OF _ _ _ session_env_embed_fails]) (simp_all add: demo_defs fail_defs)
  ultimately have "report env_embed_fails ''Test report'' None =
     Some (Inr (), [Defer, Respond dm_notice_text, CreateDM, Send 9 (Content prompt_text),
       WaitFor, Send 9 (Content (received_text 1)), WaitFor, Send 9 (Content rejection_text), WaitFor,
       Send 7 (Embed (make_embed env_embed_fails ''Test report'' None [shot])),
       LogError (log_text env_embed_fails (OtherException ''500 Internal Server Error'')),
       Respond generic_error_text])"
    by (simp add: deliver_def call_def handle_exn_def demo_defs fail_defs)
  then show ?thesis
    using session_env_embed_fails by simp
qed

text \<open>
  Claim C2, amended. Let the command reach the end of the loop with evidence \<open>images\<close>,
  the trace being \<open>tr1\<close> then. The sends of embeds and files of the whole run are: first
  one embed to the moderation channel, whose content field is the sanitized text; then
  one bundle with exactly the evidence if and only if there is evidence and the send of
  the embed and the conversions of the images have all returned.
\<close>

theorem delivery_two_phase:
  assumes "mod_channel env = Some mc" and "raises env 0 = None" and "raises env 1 = None"
    and "session env [Defer, Respond dm_notice_text] = Some (Inr images, tr1)"
  shows "\<exists>out tr. report env message user = Some (out, tr)
     \<and> filter is_delivery tr =
         Send mc (Embed (make_embed env (sanitize_message message) user images))
         # (if images \<noteq> [] \<and> all_return env (length tr1) (Suc (length images))
            then [Send mc (Files images)] else [])
     \<and> hd (embed_fields (make_embed env (sanitize_message message) user images)) =
         ([CHR 0xF0, CHR 0x9F, CHR 0x93, CHR 0x9D] @ '' Content'', sanitize_message message)"
proof -
  let ?s = "sanitize_message message"
  let ?e = "Send mc (Embed (make_embed env ?s user images))"
  let ?two = "if images \<noteq> [] \<and> all_return env (length tr1) (Suc (length images))
            then [Send mc (Files images)] else []"
  from assms(4) obtain ext0 where "tr1 = [Defer, Respond dm_notice_text] @ ext0"
    and "filter is_delivery ext0 = []"
    using session_trace by blast
  then have t1: "filter is_delivery tr1 = []"
    by simp
  have "\<exists>r ext. deliver env mc ?s user images tr1 = (r, tr1 @ ?e # ext) \<and> filter is_delivery ext = ?two"
  proof (cases "all_return env (length tr1) (delivery_calls images)")
    case True
    then have "deliver env mc ?s user images tr1 =
        call env (Send (dm_channel env) (Content (success_text images))) (tr1 @ ?e # phase_two mc images)"
      by (rule deliver_returns)
    moreover obtain r where "call env (Send (dm_channel env) (Content (success_text images)))
          (tr1 @ ?e # phase_two mc images)
        = (r, tr1 @ ?e # (phase_two mc images @ [Send (dm_channel env) (Content (success_text images))]))"
      by (cases "raises env (length (tr1 @ ?e # phase_two mc images))") (auto simp: call_def)
    moreover have "all_return env (length tr1) (Suc (length images))" if "images \<noteq> []"
    proof -
      from that True have "all_return env (length tr1) (Suc (Suc (length images)))"
        by (simp add: delivery_calls_def del: all_return.simps)
      then show ?thesis
        unfolding all_return_delivery by simp
    qed
    then have "filter is_delivery (phase_two mc images @ [Send (dm_channel env) (Content (success_text images))]) = ?two"
      by (auto simp: phase_two_def)
    ultimately show ?thesis by metis
  next
    case False
    then show ?thesis
      using deliver_raises [of env tr1 images mc ?s user] by blast
  qed
  then obtain r ext where d: "deliver env mc ?s user images tr1 = (r, tr1 @ ?e # ext)"
    and e: "filter is_delivery ext = ?two"
    by blast
  obtain out ext' where h: "handle_exn env (r, tr1 @ ?e # ext) = (out, (tr1 @ ?e # ext) @ ext')"
    and e': "filter is_delivery ext' = []"
    using handle_exn_trace by blast
  from assms d h have "report env message user = Some (out, (tr1 @ ?e # ext) @ ext')"
    by (simp add: report_after_session)
  moreover from t1 e e' have "filter is_delivery ((tr1 @ ?e # ext) @ ext') = ?e # ?two"
    by simp
  moreover have "hd (embed_fields (make_embed env ?s user images)) =
         ([CHR 0xF0, CHR 0x9F, CHR 0x93, CHR 0x9D] @ '' Content'', ?s)"
    by (simp add: make_embed_def)
  ultimately show ?thesis by blast
qed

theorem delivery_two_phase_witness:
  "\<exists>out tr. report env_demo ''spam @everyone'' None = Some (out, tr)
     \<and> filter is_delivery tr =
         [Send 7 (Embed (make_embed env_demo ''spam [at everyone]'' None [shot])), Send 7 (Files [shot])]"
proof -
  have s: "sanitize_message ''spam @everyone'' = ''spam [at everyone]''"
    by (simp add: sanitize_message_def match_at_def lower_def lower_table)
  have "mod_channel env_demo = Some 7" "raises env_demo 0 = None" "raises env_demo 1 = None"
    by (simp_all add: demo_defs)
  from delivery_two_phase [OF this session_env_demo, of "''spam @everyone''" None]
  obtain out tr where "report env_demo ''spam @everyone'' None = Some (out, tr)"
    and "filter is_delivery tr =
         Send 7 (Embed (make_embed env_demo (sanitize_message ''spam @everyone'') None [shot]))
         # (if [shot] \<noteq> [] \<and> all_return env_demo (length [Defer, Respond dm_notice_text, CreateDM,
               Send 9 (Content prompt_text), WaitFor, Send 9 (Content (received_text 1)), WaitFor,
               Send 9 (Content rejection_text), WaitFor]) (Suc (length [shot]))
            then [Send 7 (Files [shot])] else [])"
    by blast
  moreover have "raises env_demo k = None" for k
    by (simp add: demo_defs)
  ultimately show ?thesis
    using s by auto
qed

text \<open>
  Claim C3, as stated, fails: the first input carries an acceptable image, the image is
  appended and the acknowledgement sent, but the send raises; the loop does not wait
  again, and the command ends in the handler of line 164.
\<close>

theorem collection_ends_when_notice_raises:
  "find (check env_ack_fails) (inbox env_ack_fails 0) = Some (from_reporter [] [shot, memo])
   \<and> lower (content (from_reporter [] [shot, memo])) \<noteq> ''done''
   \<and> is_acceptable shot
   \<and> loop_body env_ack_fails 0 [] [Defer, Respond dm_notice_text, CreateDM, Send 9 (Content prompt_text)] =
       (Inl (OtherException ''500 Internal Server Error''), [shot],
        [Defer, Respond dm_notice_text, CreateDM, Send 9 (Content prompt_text),
         WaitFor, Send 9 (Content (received_text 1))])
   \<and> report env_ack_fails ''Test report'' None =
       Some (Inr (), [Defer, Respond dm_notice_text, CreateDM, Send 9 (Content prompt_text),
         WaitFor, Send 9 (Content (received_text 1)),
         LogError (log_text env_ack_fails (OtherException ''500 Internal Server Error'')),
         Respond generic_error_text])"
proof -
  have "find (check env_ack_fails) (inbox env_ack_fails 0) = Some (from_reporter [] [shot, memo])"
    by (simp add: check_def demo_defs fail_defs)
  moreover have "lower (content (from_reporter [] [shot, memo])) \<noteq> ''done''"
    by (simp add: demo_defs lower_def lower_table)
  moreover have "is_acceptable shot"
    by (simp add: demo_defs is_acceptable_def image_extensions_def endswith_def lower_def lower_table)
  moreover have "loop_body env_ack_fails 0 []
        [Defer, Respond dm_notice_text, CreateDM, Send 9 (Content prompt_text)] =
       (Inl (OtherException ''500 Internal Server Error''), [shot],
        [Defer, Respond dm_notice_text, CreateDM, Send 9 (Content prompt_text),
         WaitFor, Send 9 (Content (received_text 1))])"
    by (simp add: run_defs demo_defs fail_defs)
  moreover have "report env_ack_fails ''Test report'' None =
      Some (handle_exn env_ack_fails (Inl (OtherException ''500 Internal Server Error''),
        [Defer, Respond dm_notice_text, CreateDM, Send 9 (Content prompt_text),
         WaitFor, Send 9 (Content (received_text 1))]))"
    by (rule report_after_failed_session [OF _ _ _ session_env_ack_fails])
      (simp_all add: demo_defs fail_defs)
  then have "report env_ack_fails ''Test report'' None =
       Some (Inr (), [Defer, Respond dm_notice_text, CreateDM, Send 9 (Content prompt_text),
         WaitFor, Send 9 (Content (received_text 1)),
         LogError (log_text env_ack_fails (OtherException ''500 Internal Server Error'')),
         Respond generic_error_text])"
    by (simp add: call_def handle_exn_def demo_defs fail_defs)
  ultimately show ?thesis by simp
qed

text \<open>
  Claim C7, as stated, fails: with no evidence the confirmation is the bare line, and
  the count \<open>0\<close> is nowhere in it. The run is the one of the reporter who types
  \<open>done\<close> at once.
\<close>

theorem confirmation_without_count:
  "report env_done ''Test report'' None =
     Some (Inr (), [Defer, Respond dm_notice_text, CreateDM, Send 9 (Content prompt_text), WaitFor,
       Send 7 (Embed (make_embed env_done ''Test report'' None [])),
       Send 9 (Content (success_text []))])
   \<and> \<not> sublist (str_nat (length ([] :: attachment list))) (success_text [])"
proof
  have "sanitize_message ''Test report'' = ''Test report''"
    by (simp add: sanitize_message_def match_at_def lower_def lower_table)
  moreover have "report env_done ''Test report'' None =
      Some (handle_exn env_done (deliver env_done 7 (sanitize_message ''Test report'') None []
        [Defer, Respond dm_notice_text, CreateDM, Send 9 (Content prompt_text), WaitFor]))"
    by (rule report_after_session [OF _ _ _ session_env_done]) (simp_all add: demo_defs)
  ultimately show "report env_done ''Test report'' None =
     Some (Inr (), [Defer, Respond dm_notice_text, CreateDM, Send 9 (Content prompt_text), WaitFor,
       Send 7 (Embed (make_embed env_done ''Test report'' None [])),
       Send 9 (Content (success_text []))])"
    by (simp add: deliver_def call_def handle_exn_def demo_defs)
  have "CHR ''0'' \<notin> set (success_text [])"
    by (simp add: success_text_def check_mark_def)
  moreover have "str_nat (length ([] :: attachment list)) = ''0''"
    by (simp add: str_nat.simps digit_char_def)
  ultimately show "\<not> sublist (str_nat (length ([] :: attachment list))) (success_text [])"
    using set_mono_sublist [of "''0''" "success_text []"] by auto
qed

text \<open>
  Claim C7, amended. The confirmation is sent only when every call of the delivery
  phases has returned, and then it comes after them; when one of them raises, no text is
  sent to the reporter after the loop. The confirmation states the number of images when
  there is at least one, and is the bare line when there is none.
\<close>

theorem confirmation_after_delivery:
  assumes "mod_channel env = Some mc" and "raises env 0 = None" and "raises env 1 = None"
    and "session env [Defer, Respond dm_notice_text] = Some (Inr images, tr1)"
  shows "\<exists>out tr. report env message user = Some (out, tr)
     \<and> (if all_return env (length tr1) (delivery_calls images)
        then \<exists>rest. tr = tr1 @ Send mc (Embed (make_embed env (sanitize_message message) user images))
                 # (if images = [] then [] else map ToFile images @ [Send mc (Files images)])
                 @ Send (dm_channel env) (Content (success_text images)) # rest
               \<and> filter is_text_send rest = []
        else filter is_text_send (drop (length tr1) tr) = [])
     \<and> success_text images =
         check_mark @ '' Your report has been sent to the moderators!'' @ [CHR 0x0A]
         @ (if images = [] then []
            else paperclip @ '' Included '' @ str_nat (length images) @ '' image''
                 @ plural (length images))"
proof -
  let ?s = "sanitize_message message"
  let ?e = "Send mc (Embed (make_embed env ?s user images))"
  let ?ok = "Send (dm_channel env) (Content (success_text images))"
  have stxt: "success_text images =
         check_mark @ '' Your report has been sent to the moderators!'' @ [CHR 0x0A]
         @ (if images = [] then []
            else paperclip @ '' Included '' @ str_nat (length images) @ '' image''
                 @ plural (length images))"
    by (simp add: success_text_def)
  show ?thesis
  proof (cases "all_return env (length tr1) (delivery_calls images)")
    case True
    then have d: "deliver env mc ?s user images tr1 = call env ?ok (tr1 @ ?e # phase_two mc images)"
      by (rule deliver_returns)
    obtain r where c: "call env ?ok (tr1 @ ?e # phase_two mc images)
        = (r, (tr1 @ ?e # phase_two mc images) @ [?ok])"
      by (cases "raises env (length (tr1 @ ?e # phase_two mc images))") (auto simp: call_def)
    obtain out ext' where h: "handle_exn env (r, (tr1 @ ?e # phase_two mc images) @ [?ok])
        = (out, ((tr1 @ ?e # phase_two mc images) @ [?ok]) @ ext')"
      and e': "filter is_text_send ext' = []"
      using handle_exn_trace by blast
    from assms d c h have "report env message user =
        Some (out, tr1 @ ?e # (if images = [] then [] else map ToFile images @ [Send mc (Files images)])
           @ ?ok # ext')"
      by (simp add: report_after_session phase_two_def)
    with True e' stxt show ?thesis by auto
  next
    case False
    then obtain e ext where d: "deliver env mc ?s user images tr1 = (Inl e, tr1 @ ?e # ext)"
      and x: "filter is_text_send ext = []"
      using deliver_raises [of env tr1 images mc ?s user] by blast
    obtain out ext' where h: "handle_exn env (Inl e, tr1 @ ?e # ext) = (out, (tr1 @ ?e # ext) @ ext')"
      and e': "filter is_text_send ext' = []"
      using handle_exn_trace by blast
    from assms d h have "report env message user = Some (out, (tr1 @ ?e # ext) @ ext')"
      by (simp add: report_after_session)
    moreover from x e' have "filter is_text_send (drop (length tr1) ((tr1 @ ?e # ext) @ ext')) = []"
      by simp
    ultimately show ?thesis using False stxt by auto
  qed
qed

theorem confirmation_after_delivery_witness:
  "\<exists>out rest. report env_demo ''spam @everyone'' None =
      Some (out, [Defer, Respond dm_notice_text, CreateDM, Send 9 (Content prompt_text), WaitFor,
        Send 9 (Content (received_text 1)), WaitFor, Send 9 (Content rejection_text), WaitFor,
        Send 7 (Embed (make_embed env_demo ''spam [at everyone]'' None [shot])),
        ToFile shot, Send 7 (Files [shot]), Send 9 (Content (success_text [shot]))] @ rest)
   \<and> success_text [shot] = check_mark @ '' Your report has been sent to the moderators!''
        @ [CHR 0x0A] @ paperclip @ '' Included 1 image''"
proof -
  have s: "sanitize_message ''spam @everyone'' = ''spam [at everyone]''"
    by (simp add: sanitize_message_def match_at_def lower_def lower_table)
  have ar: "all_return env_demo k n" for k n
    by (induction n arbitrary: k) (simp_all add: demo_defs)
  have "mod_channel env_demo = Some 7" "raises env_demo 0 = None" "raises env_demo 1 = None"
    by (simp_all add: demo_defs)
  from confirmation_after_delivery [OF this session_env_demo, of "''spam @everyone''" None]
  obtain out tr where r: "report env_demo ''spam @everyone'' None = Some (out, tr)"
    and t: "\<exists>rest. tr = [Defer, Respond dm_notice_text, CreateDM, Send 9 (Content prompt_text), WaitFor,
        Send 9 (Content (received_text 1)), WaitFor, Send 9 (Content rejection_text), WaitFor]
        @ Send 7 (Embed (make_embed env_demo (sanitize_message ''spam @everyone'') None [shot]))
          # (if [shot] = [] then [] else map ToFile [shot] @ [Send 7 (Files [shot])])
          @ Send (dm_channel env_demo) (Content (success_text [shot])) # rest
        \<and> filter is_text_send rest = []"
    using ar by auto
  have d: "dm_channel env_demo = 9"
    by (simp add: demo_defs)
  from t obtain rest where "tr = [Defer, Respond dm_notice_text, CreateDM, Send 9 (Content prompt_text),
        WaitFor, Send 9 (Content (received_text 1)), WaitFor, Send 9 (Content rejection_text), WaitFor,
        Send 7 (Embed (make_embed env_demo ''spam [at everyone]'' None [shot])),
        ToFile shot, Send 7 (Files [shot]), Send 9 (Content (success_text [shot]))] @ rest"
    using s d by auto
  with r have "\<exists>out rest. report env_demo ''spam @everyone'' None =
      Some (out, [Defer, Respond dm_notice_text, CreateDM, Send 9 (Content prompt_text), WaitFor,
        Send 9 (Content (received_text 1)), WaitFor, Send 9 (Content rejection_text), WaitFor,
        Send 7 (Embed (make_embed env_demo ''spam [at everyone]'' None [shot])),
        ToFile shot, Send 7 (Files [shot]), Send 9 (Content (success_text [shot]))] @ rest)"
    by blast
  moreover have "success_text [shot] = check_mark @ '' Your report has been sent to the moderators!''
        @ [CHR 0x0A] @ paperclip @ '' Included 1 image''"
    by (simp add: success_text_def plural_def str_nat.simps digit_char_def)
  ultimately show ?thesis by blast
qed

text \<open>
  Claim C4 does not hold of the code when the send to the moderation channel raises
  \<open>discord.Forbidden\<close>: the handler of line 158, written for a private channel that
  cannot be opened, catches it. Nothing is logged and the reporter is told that the bot
  could not send a direct message.
\<close>

theorem forbidden_delivery_misreported:
  "report env_forbidden ''Test report'' None =
     Some (Inr (), [Defer, Respond dm_notice_text, CreateDM, Send 9 (Content prompt_text), WaitFor,
       Send 7 (Embed (make_embed env_forbidden ''Test report'' None [])),
       Respond dm_forbidden_text])"
proof -
  have "sanitize_message ''Test report'' = ''Test report''"
    by (simp add: sanitize_message_def match_at_def lower_def lower_table)
  moreover have "report env_forbidden ''Test report'' None =
      Some (handle_exn env_forbidden (deliver env_forbidden 7 (sanitize_message ''Test report'') None []
        [Defer, Respond dm_notice_text, CreateDM, Send 9 (Content prompt_text), WaitFor]))"
    by (rule report_after_session [OF _ _ _ session_env_forbidden]) (simp_all add: demo_defs)
  ultimately show ?thesis
    by (simp add: deliver_def call_def handle_exn_def demo_defs)
qed

text \<open>
  Every other exception reaches the handler of line 164: it is logged with the
  reporter's identifier and its text, and the reporter gets the generic message.
\<close>

lemma unexpected_error_logged:
  assumes "e = TimeoutError s \<or> e = OtherException s"
  shows "handle_exn env (Inl e, tr) =
     call env (Respond generic_error_text)
       (tr @ [LogError (''Error processing report from '' @ str_nat (member_id (ctx_author env))
                @ '': '' @ str_exn e)])"
  using assms by (auto simp: handle_exn_def log_text_def)

end
